theory Spec2Isabelle
  imports Main "HOL-Library.Sublist"
begin

section \<open>The process environment and results\<close>

text \<open>
  The package \<^verbatim>\<open>pathutil\<close> reads three things from the process it runs in: the
  operating system it was built for (\<^verbatim>\<open>runtime.GOOS\<close>), the environment variables
  (\<^verbatim>\<open>os.Getenv\<close>, which yields the empty string for an unset variable) and the file
  system (\<^verbatim>\<open>os.Lstat\<close>, of which only the error is used: none when the path
  names a file, \<open>ErrNotExist\<close> for \<^verbatim>\<open>ENOENT\<close>, the one error that
  \<^verbatim>\<open>os.IsNotExist\<close> recognises, \<open>ErrNotDir\<close> for \<^verbatim>\<open>ENOTDIR\<close>, where a
  directory on the way to the path is not a directory and the path names nothing, and
  \<open>ErrOther\<close> for the rest). They are the fields of
  one record, passed to every function that reads one of them. The last two fields stand
  for \<^verbatim>\<open>filepath.Join\<close> and \<^verbatim>\<open>filepath.Base\<close> as the Windows build of the
  standard library implements them (volume names, two separators): they are not
  modelled, and nothing is proved of a Windows build that depends on what they compute.
\<close>

datatype lstat_error = ErrNotExist | ErrNotDir | ErrOther

record world =
  GOOS :: string
  Getenv :: "string \<Rightarrow> string"
  Lstat :: "string \<Rightarrow> lstat_error option"
  windows_Join :: "string list \<Rightarrow> string"
  windows_Base :: "string \<Rightarrow> string"

text \<open>
  A Go function of this package ends in one of three ways: it returns a value, it returns
  an \<^verbatim>\<open>error\<close> built by \<^verbatim>\<open>errors.New\<close>, or it panics (an explicit
  \<^verbatim>\<open>panic\<close>, or a run-time error such as a slice bound out of range).
\<close>

datatype failure = Error string | Panic string

type_synonym 'a result = "failure + 'a"

section \<open>The functions of package strings that the code calls\<close>

text \<open>
  Go strings are byte sequences, as \<^typ>\<open>string\<close> is. \<^verbatim>\<open>strings.Split(s, sep)\<close>
  with a one-byte separator cuts \<open>s\<close> at the first separator, keeps the part before it
  and goes on with the part after it; the last piece is what is left when no separator
  remains, so the result always has at least one element.
\<close>

function strings_Split :: "string \<Rightarrow> char \<Rightarrow> string list" where
  "strings_Split s sep =
     (case dropWhile (\<lambda>c. c \<noteq> sep) s of
        [] \<Rightarrow> [s]
      | _ # rest \<Rightarrow> takeWhile (\<lambda>c. c \<noteq> sep) s # strings_Split rest sep)"
  by pat_completeness auto
termination
proof (relation "measure (\<lambda>(s, sep). length s)")
  show "wf (measure (\<lambda>(s, sep). length s))" by simp
next
  fix s :: string and sep x rest
  assume "dropWhile (\<lambda>c. c \<noteq> sep) s = x # rest"
  then have "Suc (length rest) = length (dropWhile (\<lambda>c. c \<noteq> sep) s)" by simp
  also have "\<dots> \<le> length s" by (rule length_dropWhile_le)
  finally show "((rest, sep), (s, sep)) \<in> measure (\<lambda>(s, sep). length s)" by simp
qed

declare strings_Split.simps [simp del]

fun strings_Join :: "string list \<Rightarrow> string \<Rightarrow> string" where
  "strings_Join [] sep = []"
| "strings_Join [e] sep = e"
| "strings_Join (e # f # es) sep = e @ sep @ strings_Join (f # es) sep"

definition strings_HasSuffix :: "string \<Rightarrow> string \<Rightarrow> bool" where
  "strings_HasSuffix s suf \<longleftrightarrow>
     length suf \<le> length s \<and> drop (length s - length suf) s = suf"

definition strings_TrimSuffix :: "string \<Rightarrow> string \<Rightarrow> string" where
  "strings_TrimSuffix s suf =
     (if strings_HasSuffix s suf then take (length s - length suf) s else s)"

definition strings_HasPrefix :: "string \<Rightarrow> string \<Rightarrow> bool" where
  "strings_HasPrefix s pre \<longleftrightarrow> length pre \<le> length s \<and> take (length pre) s = pre"

text \<open>
  \<^verbatim>\<open>strings.Contains(s, substr)\<close> is \<^verbatim>\<open>Index(s, substr) >= 0\<close>: some suffix of
  \<open>s\<close> starts with \<open>substr\<close>.
\<close>

fun strings_Contains :: "string \<Rightarrow> string \<Rightarrow> bool" where
  "strings_Contains [] substr = (substr = [])"
| "strings_Contains (c # cs) substr =
     (strings_HasPrefix (c # cs) substr \<or> strings_Contains cs substr)"

text \<open>
  A \<^verbatim>\<open>strings.Replacer\<close> whose old strings are all single bytes replaces byte by byte,
  in one pass (\<open>packer\<close> and \<open>unpacker1\<close> are of this kind). A replacer made from one
  pair whose old string is longer than one byte looks for the leftmost occurrence of the
  old string, writes the new string in its place and goes on after the occurrence
  (\<open>unpacker2\<close>); it is never built with an empty old string.
\<close>

definition byteStringReplace :: "(char \<Rightarrow> string option) \<Rightarrow> string \<Rightarrow> string" where
  "byteStringReplace tbl s = concat (map (\<lambda>c. case tbl c of None \<Rightarrow> [c] | Some new \<Rightarrow> new) s)"

definition byteReplace :: "(char \<Rightarrow> char) \<Rightarrow> string \<Rightarrow> string" where
  "byteReplace tbl s = map tbl s"

function singleStringReplace :: "string \<Rightarrow> string \<Rightarrow> string \<Rightarrow> string" where
  "singleStringReplace old new s =
     (if old = [] \<or> s = [] then s
      else if strings_HasPrefix s old
        then new @ singleStringReplace old new (drop (length old) s)
      else hd s # singleStringReplace old new (tl s))"
  by pat_completeness auto
termination
  by (relation "measure (\<lambda>(old, new, s). length s)") auto

declare singleStringReplace.simps [simp del]

section \<open>The functions of package path/filepath that the code calls\<close>

text \<open>
  \<^verbatim>\<open>filepath.ToSlash\<close> returns its argument where the separator is a slash, and
  replaces every backslash by a slash on Windows, where the separator is a backslash.
\<close>

definition filepath_ToSlash :: "world \<Rightarrow> string \<Rightarrow> string" where
  "filepath_ToSlash w path =
     (if GOOS w = ''windows''
      then map (\<lambda>c. if c = CHR 0x5C then CHR ''/'' else c) path
      else path)"

text \<open>
  \<^verbatim>\<open>filepath.Clean\<close> where the separator is a slash: empty elements and \<open>.\<close> are
  dropped; \<open>..\<close> removes the element before it when there is one that is not itself
  \<open>..\<close>, is dropped at the root, and is kept otherwise; the result is \<open>.\<close> when nothing
  is left. \<open>out\<close> is the list of elements written so far.
\<close>

definition clean_elem :: "bool \<Rightarrow> string list \<Rightarrow> string \<Rightarrow> string list" where
  "clean_elem rooted out e =
     (if e = [] \<or> e = ''.'' then out
      else if e = ''..''
        then (if out \<noteq> [] \<and> last out \<noteq> ''..'' then butlast out
              else if rooted then out
              else out @ [''..''])
      else out @ [e])"

definition unix_Clean :: "string \<Rightarrow> string" where
  "unix_Clean path =
     (if path = [] then ''.''
      else let rooted = (hd path = CHR ''/'');
               out = foldl (clean_elem rooted) [] (strings_Split path CHR ''/'');
               s = (if rooted then ''/'' else []) @ strings_Join out ''/''
           in if s = [] then ''.'' else s)"

text \<open>
  \<^verbatim>\<open>filepath.Join\<close> skips the leading empty elements, joins the others with the
  separator and cleans the result; it is the empty string when every element is empty.
\<close>

definition unix_Join :: "string list \<Rightarrow> string" where
  "unix_Join elem =
     (case dropWhile (\<lambda>e. e = []) elem of
        [] \<Rightarrow> []
      | e # es \<Rightarrow> unix_Clean (strings_Join (e # es) ''/''))"

text \<open>
  \<^verbatim>\<open>filepath.Base\<close>: the last element of the path, after the trailing slashes are
  removed; \<open>.\<close> for the empty path and a single slash for a path of slashes only.
\<close>

definition unix_Base :: "string \<Rightarrow> string" where
  "unix_Base path =
     (if path = [] then ''.''
      else let stripped = rev (dropWhile (\<lambda>c. c = CHR ''/'') (rev path));
               element = rev (takeWhile (\<lambda>c. c \<noteq> CHR ''/'') (rev stripped))
           in if element = [] then ''/'' else element)"

definition filepath_Join :: "world \<Rightarrow> string list \<Rightarrow> string" where
  "filepath_Join w elem = (if GOOS w = ''windows'' then windows_Join w elem else unix_Join elem)"

definition filepath_Base :: "world \<Rightarrow> string \<Rightarrow> string" where
  "filepath_Base w path = (if GOOS w = ''windows'' then windows_Base w path else unix_Base path)"

section \<open>Normalising a repository reference\<close>

text \<open>
  \<^verbatim>\<open>NormalizeRepos\<close>, branch by branch. The slice expression
  \<^verbatim>\<open>paths[len(paths)-3:]\<close> panics when \<open>paths\<close> has fewer than three elements, and
  \<^verbatim>\<open>paths[0]\<close> panics on an empty slice; both are branches of the model.
\<close>

definition NormalizeRepos :: "world \<Rightarrow> string \<Rightarrow> string result" where
  "NormalizeRepos w raw =
     (let rawReposPath = filepath_ToSlash w raw;
          paths = strings_Split rawReposPath CHR ''/''
      in if length paths = 3 then Inr (strings_TrimSuffix rawReposPath ''.git'')
         else if length paths = 2
           then Inr (strings_TrimSuffix (''github.com/'' @ rawReposPath) ''.git'')
         else if paths = [] then Inl (Panic ''index out of range'')
         else if paths ! 0 = ''https:'' \<or> paths ! 0 = ''http:'' \<or> paths ! 0 = ''git:''
           then (if length paths < 3 then Inl (Panic ''slice bounds out of range'')
                 else Inr (strings_TrimSuffix
                             (strings_Join (drop (length paths - 3) paths) ''/'') ''.git''))
         else Inl (Error (''invalid format of repository: '' @ rawReposPath)))"

text \<open>\<^verbatim>\<open>NormalizeLocalRepos\<close>.\<close>

definition NormalizeLocalRepos :: "world \<Rightarrow> string \<Rightarrow> string result" where
  "NormalizeLocalRepos w name =
     (if \<not> strings_Contains name ''/'' then Inr (''localhost/local/'' @ name)
      else NormalizeRepos w name)"

text \<open>\<^verbatim>\<open>CloneURL\<close>.\<close>

definition CloneURL :: "world \<Rightarrow> string \<Rightarrow> string" where
  "CloneURL w reposPath = ''https://'' @ filepath_ToSlash w reposPath"

section \<open>Directories\<close>

text \<open>\<^verbatim>\<open>HomeDir\<close>: the panic is the third way out, not a returned error.\<close>

definition HomeDir :: "world \<Rightarrow> string result" where
  "HomeDir w =
     (let home = Getenv w ''HOME''
      in if home \<noteq> [] then Inr home
         else let home = Getenv w ''USERPROFILE''
              in if home \<noteq> [] then Inr home
                 else Inl (Panic ''Couldn't look up HOME''))"

text \<open>\<^verbatim>\<open>VimDir\<close> and \<^verbatim>\<open>VimVoltOptDir\<close>; a panic of \<open>HomeDir\<close> goes through them.\<close>

definition VimDir :: "world \<Rightarrow> string result" where
  "VimDir w =
     (if GOOS w = ''windows''
      then (case HomeDir w of Inl e \<Rightarrow> Inl e
            | Inr home \<Rightarrow> Inr (filepath_Join w [home, ''vimfiles'']))
      else (case HomeDir w of Inl e \<Rightarrow> Inl e
            | Inr home \<Rightarrow> Inr (filepath_Join w [home, ''.vim''])))"

definition VimVoltOptDir :: "world \<Rightarrow> string result" where
  "VimVoltOptDir w =
     (case VimDir w of Inl e \<Rightarrow> Inl e
      | Inr dir \<Rightarrow> Inr (filepath_Join w [dir, ''pack'', ''volt'', ''opt'']))"

section \<open>The directory-name codec\<close>

definition packer :: "string \<Rightarrow> string" where
  "packer = byteStringReplace
     (\<lambda>c. if c = CHR ''_'' then Some ''__'' else if c = CHR ''/'' then Some ''_'' else None)"

definition unpacker1 :: "string \<Rightarrow> string" where
  "unpacker1 = byteReplace (\<lambda>c. if c = CHR ''_'' then CHR ''/'' else c)"

definition unpacker2 :: "string \<Rightarrow> string" where
  "unpacker2 = singleStringReplace ''//'' ''_''"

definition EncodeReposPath :: "world \<Rightarrow> string \<Rightarrow> string result" where
  "EncodeReposPath w reposPath =
     (let path = packer reposPath
      in case VimVoltOptDir w of Inl e \<Rightarrow> Inl e
         | Inr dir \<Rightarrow> Inr (filepath_Join w [dir, path]))"

definition DecodeReposPath :: "world \<Rightarrow> string \<Rightarrow> string" where
  "DecodeReposPath w name0 =
     (let name = filepath_Base w name0
      in unpacker2 (unpacker1 name))"

section \<open>Looking up the rc files\<close>

text \<open>
  \<^verbatim>\<open>Exists\<close>: the path counts as existing unless \<^verbatim>\<open>os.Lstat\<close> fails with an
  error that \<^verbatim>\<open>os.IsNotExist\<close> recognises.
\<close>

definition os_IsNotExist :: "lstat_error option \<Rightarrow> bool" where
  "os_IsNotExist err \<longleftrightarrow> err = Some ErrNotExist"

definition Exists :: "world \<Rightarrow> string \<Rightarrow> bool" where
  "Exists w path \<longleftrightarrow> \<not> os_IsNotExist (Lstat w path)"

text \<open>
  The loop that \<^verbatim>\<open>LookUpVimrc\<close> and \<^verbatim>\<open>LookUpGvimrc\<close> both end with: at index
  \<open>i\<close>, a path that does not exist is cut out of the slice and the index stays;
  otherwise the index moves on.
\<close>

function remove_missing :: "world \<Rightarrow> nat \<Rightarrow> string list \<Rightarrow> string list" where
  "remove_missing w i paths =
     (if i < length paths
      then (if \<not> Exists w (paths ! i)
            then remove_missing w i (take i paths @ drop (i + 1) paths)
            else remove_missing w (i + 1) paths)
      else paths)"
  by pat_completeness auto
termination
  by (relation "measure (\<lambda>(w, i, paths). length paths - i)") auto

declare remove_missing.simps [simp del]

definition LookUpVimrc :: "world \<Rightarrow> string list result" where
  "LookUpVimrc w =
     (case HomeDir w of Inl e \<Rightarrow> Inl e
      | Inr home \<Rightarrow>
          (case VimDir w of Inl e \<Rightarrow> Inl e
           | Inr vimdir \<Rightarrow>
               Inr (remove_missing w 0
                     (if GOOS w = ''windows''
                      then [filepath_Join w [home, ''_vimrc''], filepath_Join w [vimdir, ''vimrc'']]
                      else [filepath_Join w [home, ''.vimrc''], filepath_Join w [vimdir, ''vimrc'']]))))"

definition LookUpGvimrc :: "world \<Rightarrow> string list result" where
  "LookUpGvimrc w =
     (case HomeDir w of Inl e \<Rightarrow> Inl e
      | Inr home \<Rightarrow>
          (case VimDir w of Inl e \<Rightarrow> Inl e
           | Inr vimdir \<Rightarrow>
               Inr (remove_missing w 0
                     (if GOOS w = ''windows''
                      then [filepath_Join w [home, ''_gvimrc''], filepath_Join w [vimdir, ''gvimrc'']]
                      else [filepath_Join w [home, ''.gvimrc''], filepath_Join w [vimdir, ''gvimrc'']]))))"

section \<open>Notions the properties are stated with\<close>

text \<open>
  The scheme tokens are \<open>http:\<close>, \<open>https:\<close> and \<open>git:\<close>. A string has a scheme prefix
  when it starts with one of them, and \<open>scheme_token_count\<close> counts the positions of a
  string at which one of them starts.
\<close>

definition has_scheme_prefix :: "string \<Rightarrow> bool" where
  "has_scheme_prefix s \<longleftrightarrow>
     strings_HasPrefix s ''http:'' \<or> strings_HasPrefix s ''https:'' \<or> strings_HasPrefix s ''git:''"

fun scheme_token_count :: "string \<Rightarrow> nat" where
  "scheme_token_count [] = 0"
| "scheme_token_count (c # cs) =
     (if has_scheme_prefix (c # cs) then 1 else 0) + scheme_token_count cs"

text \<open>
  The canonical shape of the data model, without the demand that the first segment be a
  host name, which no function of the package examines.
\<close>

definition canonical_shape :: "string \<Rightarrow> bool" where
  "canonical_shape s \<longleftrightarrow>
     3 \<le> length (strings_Split s CHR ''/'') \<and> \<not> strings_HasSuffix s ''.git''
     \<and> \<not> has_scheme_prefix s"

text \<open>
  A segment is a string without a separator: no slash and, on Windows, no backslash
  either, since \<^verbatim>\<open>filepath.ToSlash\<close> turns a backslash into a slash.
\<close>

definition is_segment :: "world \<Rightarrow> string \<Rightarrow> bool" where
  "is_segment w s \<longleftrightarrow> CHR ''/'' \<notin> set (filepath_ToSlash w s)"

text \<open>
  Three worlds to evaluate in: a Linux process whose home directory holds a \<open>.vimrc\<close>
  and nothing else, a process with neither \<open>HOME\<close> nor \<open>USERPROFILE\<close>, and one with
  \<open>USERPROFILE\<close> only.
\<close>

definition linux_world :: world where
  "linux_world =
     \<lparr>GOOS = ''linux'',
      Getenv = (\<lambda>k. if k = ''HOME'' then ''/home/u'' else []),
      Lstat = (\<lambda>p. if p = ''/home/u/.vimrc'' then None else Some ErrNotExist),
      windows_Join = (\<lambda>elem. []),
      windows_Base = (\<lambda>path. [])\<rparr>"

definition homeless_world :: world where
  "homeless_world = linux_world\<lparr>Getenv := (\<lambda>k. [])\<rparr>"

definition profile_world :: world where
  "profile_world =
     linux_world\<lparr>Getenv := (\<lambda>k. if k = ''USERPROFILE'' then ''C:/Users/u'' else [])\<rparr>"

text \<open>
  A fourth world: \<open>HOME\<close> is \<open>/home/u\<close>, and \<open>/home/u\<close> is a regular file, so that
  \<^verbatim>\<open>os.Lstat\<close> fails with \<^verbatim>\<open>ENOTDIR\<close> on every path below it.
\<close>

definition notdir_world :: world where
  "notdir_world =
     linux_world\<lparr>Lstat := (\<lambda>p. if p = ''/home/u'' then None
                                else if strings_HasPrefix p ''/home/u/'' then Some ErrNotDir
                                else Some ErrNotExist)\<rparr>"

section \<open>Facts about the string functions\<close>

lemma Split_Nil [simp]: "strings_Split [] sep = [[]]"
  by (simp add: strings_Split.simps)

lemma Split_Cons:
  "strings_Split (x # xs) sep =
     (if x = sep then [] # strings_Split xs sep
      else (x # hd (strings_Split xs sep)) # tl (strings_Split xs sep))"
proof (cases "x = sep")
  case True
  then show ?thesis
    by (subst strings_Split.simps) simp
next
  case False
  let ?P = "\<lambda>c. c \<noteq> sep"
  have d: "dropWhile ?P (x # xs) = dropWhile ?P xs"
    and t: "takeWhile ?P (x # xs) = x # takeWhile ?P xs"
    using False by simp_all
  show ?thesis
  proof (cases "dropWhile ?P xs")
    case Nil
    have "strings_Split (x # xs) sep = [x # xs]"
      by (subst strings_Split.simps) (simp only: d Nil list.case)
    moreover have "strings_Split xs sep = [xs]"
      by (subst strings_Split.simps) (simp only: Nil list.case)
    ultimately show ?thesis
      using False by simp
  next
    case (Cons y rest)
    have "strings_Split (x # xs) sep = (x # takeWhile ?P xs) # strings_Split rest sep"
      by (subst strings_Split.simps) (simp only: d t Cons list.case)
    moreover have "strings_Split xs sep = takeWhile ?P xs # strings_Split rest sep"
      by (subst strings_Split.simps) (simp only: Cons list.case)
    ultimately show ?thesis
      using False by simp
  qed
qed

lemma Split_not_Nil [simp]: "strings_Split s sep \<noteq> []"
  by (induction s) (simp_all add: Split_Cons)

lemma length_Split: "length (strings_Split s sep) = Suc (count_list s sep)"
proof (induction s)
  case Nil
  show ?case by simp
next
  case (Cons x xs)
  have "length (tl (strings_Split xs sep)) = count_list xs sep"
    using Cons.IH by simp
  with Cons.IH show ?case by (simp add: Split_Cons)
qed

lemma HasSuffix_iff: "strings_HasSuffix s suf \<longleftrightarrow> suffix suf s"
proof
  assume "strings_HasSuffix s suf"
  then have "s = take (length s - length suf) s @ suf"
    by (metis append_take_drop_id strings_HasSuffix_def)
  then show "suffix suf s"
    by (metis suffixI)
next
  assume "suffix suf s"
  then obtain zs where "s = zs @ suf" by (auto simp: suffix_def)
  then show "strings_HasSuffix s suf"
    by (simp add: strings_HasSuffix_def)
qed

lemma HasPrefix_iff: "strings_HasPrefix s pre \<longleftrightarrow> prefix pre s"
proof
  assume "strings_HasPrefix s pre"
  then have "s = pre @ drop (length pre) s"
    by (metis append_take_drop_id strings_HasPrefix_def)
  then show "prefix pre s"
    by (metis prefixI)
next
  assume "prefix pre s"
  then obtain zs where "s = pre @ zs" by (auto simp: prefix_def)
  then show "strings_HasPrefix s pre"
    by (simp add: strings_HasPrefix_def)
qed

lemma TrimSuffix_append [simp]: "strings_TrimSuffix (s @ suf) suf = s"
  by (simp add: strings_TrimSuffix_def strings_HasSuffix_def)

lemma TrimSuffix_no_suffix: "\<not> suffix suf s \<Longrightarrow> strings_TrimSuffix s suf = s"
  by (simp add: strings_TrimSuffix_def HasSuffix_iff)

lemma Contains_char: "strings_Contains s [c] \<longleftrightarrow> c \<in> set s"
  by (induction s) (auto simp: strings_HasPrefix_def)

lemma Split_append_sep:
  "strings_Split (a @ c # b) c = strings_Split a c @ strings_Split b c"
  by (induction a) (simp_all add: Split_Cons)

lemma Split_no_sep: "c \<notin> set s \<Longrightarrow> strings_Split s c = [s]"
  by (induction s) (auto simp: Split_Cons)

lemma Split_append_last:
  "c \<notin> set t \<Longrightarrow>
   strings_Split (s @ t) c = butlast (strings_Split s c) @ [last (strings_Split s c) @ t]"
proof (induction s)
  case Nil
  then show ?case by (simp add: Split_no_sep)
next
  case (Cons x s)
  then show ?case
    by (cases "strings_Split s c") (auto simp: Split_Cons)
qed

lemma Split_segments: "x \<in> set (strings_Split s c) \<Longrightarrow> c \<notin> set x"
proof (induction s arbitrary: x)
  case Nil
  then show ?case by simp
next
  case (Cons a s)
  then show ?case
    by (cases "strings_Split s c") (auto simp: Split_Cons split: if_splits)
qed

lemma Join_Cons_Cons: "strings_Join ((x # a) # es) sep = x # strings_Join (a # es) sep"
  by (cases es) auto

lemma Join_Split: "strings_Join (strings_Split s c) [c] = s"
proof (induction s)
  case Nil
  then show ?case by simp
next
  case (Cons x s)
  then show ?case
    by (cases "strings_Split s c") (auto simp: Split_Cons Join_Cons_Cons)
qed

lemma Split_Join:
  "xs \<noteq> [] \<Longrightarrow> \<forall>x\<in>set xs. c \<notin> set x \<Longrightarrow> strings_Split (strings_Join xs [c]) c = xs"
proof (induction xs "[c]" rule: strings_Join.induct)
  case 1
  then show ?case by simp
next
  case (2 e)
  then show ?case by (simp add: Split_no_sep)
next
  case (3 e f es)
  then show ?case by (simp add: Split_append_sep Split_no_sep)
qed

lemma suffix_last_Join: "xs \<noteq> [] \<Longrightarrow> suffix (last xs) (strings_Join xs sep)"
  by (induction xs sep rule: strings_Join.induct) (auto simp: suffix_append)

lemma suffix_last_Split: "suffix (last (strings_Split s c)) s"
  using suffix_last_Join [of "strings_Split s c" "[c]"] by (simp add: Join_Split)

lemma Split_TrimSuffix:
  assumes "c \<notin> set suf"
  shows "strings_Split (strings_TrimSuffix s suf) c =
         butlast (strings_Split s c) @ [strings_TrimSuffix (last (strings_Split s c)) suf]"
proof (cases "suffix suf s")
  case True
  then obtain s' where s: "s = s' @ suf" by (auto simp: suffix_def)
  show ?thesis
    unfolding s by (simp add: Split_append_last [OF assms])
next
  case False
  have "\<not> suffix suf (last (strings_Split s c))"
    using False suffix_last_Split suffix_order.trans by blast
  then show ?thesis
    using False by (simp add: TrimSuffix_no_suffix)
qed

section \<open>Facts about \<open>NormalizeRepos\<close>\<close>

lemma ToSlash_fixed:
  "filepath_ToSlash w s = s \<longleftrightarrow> (GOOS w = ''windows'' \<longrightarrow> CHR 0x5C \<notin> set s)"
  by (induction s) (auto simp: filepath_ToSlash_def)

lemma ToSlash_no_backslash:
  "GOOS w = ''windows'' \<Longrightarrow> CHR 0x5C \<notin> set (filepath_ToSlash w s)"
  by (auto simp: filepath_ToSlash_def)

lemma ToSlash_idem [simp]: "filepath_ToSlash w (filepath_ToSlash w s) = filepath_ToSlash w s"
  by (simp add: ToSlash_fixed ToSlash_no_backslash)

lemma set_TrimSuffix: "set (strings_TrimSuffix s suf) \<subseteq> set s"
  by (auto simp: strings_TrimSuffix_def dest: in_set_takeD)

lemma set_Join: "set (strings_Join xs sep) \<subseteq> \<Union>(set ` set xs) \<union> set sep"
  by (induction xs sep rule: strings_Join.induct) auto

lemma set_Split: "\<Union>(set ` set (strings_Split s c)) \<subseteq> set s"
proof (induction s)
  case Nil
  then show ?case by simp
next
  case (Cons x s)
  then show ?case
    by (cases "strings_Split s c") (auto simp: Split_Cons)
qed

lemma list3: "length xs = 3 \<Longrightarrow> xs = [xs ! 0, xs ! 1, xs ! 2]"
  by (cases xs; cases "tl xs"; cases "tl (tl xs)") auto

lemma list2: "length xs = 2 \<Longrightarrow> xs = [xs ! 0, xs ! 1]"
  by (cases xs; cases "tl xs") auto

lemma drop3:
  assumes "3 \<le> length xs"
  shows "drop (length xs - 3) xs =
         [xs ! (length xs - 3), xs ! (length xs - 2), xs ! (length xs - 1)]"
proof -
  let ?d = "drop (length xs - 3) xs"
  have l: "length ?d = 3" using assms by simp
  have a: "length xs - 3 + 1 = length xs - 2" "length xs - 3 + 2 = length xs - 1"
    using assms by arith+
  have "?d = [?d ! 0, ?d ! 1, ?d ! 2]" by (rule list3 [OF l])
  moreover have "?d ! 0 = xs ! (length xs - 3)" using assms by simp
  moreover have "?d ! 1 = xs ! (length xs - 2)" using assms a(1) by (simp del: One_nat_def)
  moreover have "?d ! 2 = xs ! (length xs - 1)" using assms a(2) by (simp del: One_nat_def)
  ultimately show ?thesis by simp
qed

lemma NormalizeRepos_Inr_cases:
  assumes "NormalizeRepos w x = Inr y"
  obtains
    (three) "length (strings_Split (filepath_ToSlash w x) CHR ''/'') = 3"
            "y = strings_TrimSuffix (filepath_ToSlash w x) ''.git''"
  | (two) "length (strings_Split (filepath_ToSlash w x) CHR ''/'') = 2"
          "y = strings_TrimSuffix (''github.com/'' @ filepath_ToSlash w x) ''.git''"
  | (scheme) "4 \<le> length (strings_Split (filepath_ToSlash w x) CHR ''/'')"
       "y = strings_TrimSuffix
              (strings_Join (drop (length (strings_Split (filepath_ToSlash w x) CHR ''/'') - 3)
                                  (strings_Split (filepath_ToSlash w x) CHR ''/'')) ''/'') ''.git''"
proof -
  let ?paths = "strings_Split (filepath_ToSlash w x) CHR ''/''"
  consider "length ?paths = 3" | "length ?paths = 2" | "length ?paths < 2" | "4 \<le> length ?paths"
    by linarith
  then show thesis
  proof cases
    case 1
    with assms three show ?thesis by (simp add: NormalizeRepos_def Let_def)
  next
    case 2
    with assms two show ?thesis by (simp add: NormalizeRepos_def Let_def)
  next
    case 3
    with assms show ?thesis by (simp add: NormalizeRepos_def Let_def split: if_splits)
  next
    case 4
    with assms scheme show ?thesis by (simp add: NormalizeRepos_def Let_def split: if_splits)
  qed
qed

lemma NormalizeRepos_segments:
  assumes "NormalizeRepos w x = Inr y"
  defines "paths \<equiv> strings_Split (filepath_ToSlash w x) CHR ''/''"
  shows "strings_Split y CHR ''/'' =
     (if length paths = 2
      then [''github.com'', paths ! 0, strings_TrimSuffix (paths ! 1) ''.git'']
      else [paths ! (length paths - 3), paths ! (length paths - 2),
            strings_TrimSuffix (paths ! (length paths - 1)) ''.git''])"
  using assms(1)
proof (cases rule: NormalizeRepos_Inr_cases)
  case three
  let ?r = "filepath_ToSlash w x"
  have l: "length paths = 3" using three by (simp add: paths_def)
  have y: "y = strings_TrimSuffix ?r ''.git''" by (rule three(2))
  have p: "paths = [paths ! 0, paths ! 1, paths ! 2]"
    by (rule list3 [OF l])
  have "strings_Split y CHR ''/'' = butlast paths @ [strings_TrimSuffix (last paths) ''.git'']"
    unfolding y paths_def by (rule Split_TrimSuffix) simp
  also have "\<dots> = [paths ! 0, paths ! 1, strings_TrimSuffix (paths ! 2) ''.git'']"
    by (subst (1 2) p) simp
  finally show ?thesis using l by simp
next
  case two
  let ?r = "filepath_ToSlash w x"
  have l: "length paths = 2" using two by (simp add: paths_def)
  have y: "y = strings_TrimSuffix (''github.com/'' @ ?r) ''.git''" by (rule two(2))
  have p: "paths = [paths ! 0, paths ! 1]"
    by (rule list2 [OF l])
  have s: "strings_Split (''github.com/'' @ ?r) CHR ''/'' = ''github.com'' # paths"
    using Split_append_sep [of "''github.com''" "CHR ''/''" ?r]
    by (simp add: paths_def Split_no_sep)
  have "strings_Split y CHR ''/'' =
        butlast (''github.com'' # paths) @ [strings_TrimSuffix (last (''github.com'' # paths)) ''.git'']"
    unfolding y s [symmetric] by (rule Split_TrimSuffix) simp
  also have "\<dots> = [''github.com'', paths ! 0, strings_TrimSuffix (paths ! 1) ''.git'']"
    by (subst (1 2) p) simp
  finally show ?thesis using l by simp
next
  case scheme
  let ?r = "filepath_ToSlash w x"
  have n: "4 \<le> length paths" using scheme(1) by (simp add: paths_def)
  let ?d = "drop (length paths - 3) paths"
  have y: "y = strings_TrimSuffix (strings_Join ?d ''/'') ''.git''"
    using scheme(2) by (simp add: paths_def)
  have d: "?d = [paths ! (length paths - 3), paths ! (length paths - 2), paths ! (length paths - 1)]"
    by (rule drop3) (use n in simp)
  have "\<forall>e\<in>set ?d. CHR ''/'' \<notin> set e"
    using Split_segments [of _ ?r "CHR ''/''"] by (auto simp: paths_def dest: in_set_dropD)
  moreover have "?d \<noteq> []" using n by simp
  ultimately have s: "strings_Split (strings_Join ?d ''/'') CHR ''/'' = ?d"
    using Split_Join [of ?d "CHR ''/''"] by simp
  have "strings_Split y CHR ''/'' =
        butlast (strings_Split (strings_Join ?d ''/'') CHR ''/'')
        @ [strings_TrimSuffix (last (strings_Split (strings_Join ?d ''/'') CHR ''/'')) ''.git'']"
    unfolding y by (rule Split_TrimSuffix) simp
  also have "\<dots> = butlast ?d @ [strings_TrimSuffix (last ?d) ''.git'']"
    by (simp only: s)
  also have "\<dots> = [paths ! (length paths - 3), paths ! (length paths - 2),
          strings_TrimSuffix (paths ! (length paths - 1)) ''.git'']"
    by (subst (1 2) d) simp
  finally show ?thesis using n by simp
qed

lemma NormalizeRepos_ToSlash:
  assumes "NormalizeRepos w x = Inr y"
  shows "filepath_ToSlash w y = y"
proof -
  let ?r = "filepath_ToSlash w x"
  let ?paths = "strings_Split ?r CHR ''/''"
  have "set y \<subseteq> set ?r \<union> set ''github.com/''"
    using assms
  proof (cases rule: NormalizeRepos_Inr_cases)
    case three
    then show ?thesis using set_TrimSuffix [of ?r "''.git''"] by blast
  next
    case two
    then show ?thesis using set_TrimSuffix [of "''github.com/'' @ ?r" "''.git''"] by auto
  next
    case scheme
    let ?d = "drop (length ?paths - 3) ?paths"
    have "set (strings_Join ?d ''/'') \<subseteq> \<Union>(set ` set ?d) \<union> set ''/''"
      by (rule set_Join)
    moreover have "\<Union>(set ` set ?d) \<subseteq> \<Union>(set ` set ?paths)"
      by (auto dest: in_set_dropD)
    moreover have "\<Union>(set ` set ?paths) \<subseteq> set ?r"
      by (rule set_Split)
    moreover have "set y \<subseteq> set (strings_Join ?d ''/'')"
      unfolding scheme(2) by (rule set_TrimSuffix)
    ultimately have "set y \<subseteq> set ?r \<union> set ''/''"
      by blast
    moreover have "set ''/'' \<subseteq> set ''github.com/''" by simp
    ultimately show ?thesis by blast
  qed
  moreover have "CHR 0x5C \<notin> set ''github.com/''" by simp
  ultimately have "GOOS w = ''windows'' \<longrightarrow> CHR 0x5C \<notin> set y"
    using ToSlash_no_backslash [of w x] by blast
  then show ?thesis by (simp add: ToSlash_fixed)
qed

lemma Split_length_1: 
  assumes "length (strings_Split s c) < 2" shows "strings_Split s c = [s]"
proof -
  have "length (strings_Split s c) = 1"
    using assms Split_not_Nil [of s c] by (cases "strings_Split s c") auto
  then obtain e where e: "strings_Split s c = [e]"
    by (cases "strings_Split s c") auto
  then have "strings_Join [e] [c] = s" using Join_Split [of s c] by simp
  with e show ?thesis by simp
qed

lemma TrimSuffix_fixed: "suf \<noteq> [] \<Longrightarrow> strings_TrimSuffix s suf = s \<longleftrightarrow> \<not> strings_HasSuffix s suf"
proof -
  assume "suf \<noteq> []"
  have "take (length s - length suf) s \<noteq> s" if "strings_HasSuffix s suf"
  proof
    assume "take (length s - length suf) s = s"
    then have "length (take (length s - length suf) s) = length s" by simp
    then show False using \<open>suf \<noteq> []\<close> that by (auto simp: strings_HasSuffix_def)
  qed
  then show ?thesis by (auto simp: strings_TrimSuffix_def)
qed

lemma suffix_last_Split_iff:
  assumes "c \<notin> set suf"
  shows "suffix suf (last (strings_Split s c)) \<longleftrightarrow> suffix suf s"
proof
  assume "suffix suf (last (strings_Split s c))"
  then show "suffix suf s"
    using suffix_last_Split suffix_order.trans by blast
next
  assume "suffix suf s"
  then obtain s' where s: "s = s' @ suf" by (auto simp: suffix_def)
  show "suffix suf (last (strings_Split s c))"
    unfolding s by (simp add: Split_append_last [OF assms] suffix_def)
qed

lemma hd_Split: "hd (strings_Split s c) = takeWhile (\<lambda>x. x \<noteq> c) s"
  by (induction s) (simp_all add: Split_Cons)

lemma prefix_hd_Split_iff:
  assumes "c \<notin> set pre"
  shows "prefix pre (hd (strings_Split s c)) \<longleftrightarrow> prefix pre s"
proof
  assume "prefix pre (hd (strings_Split s c))"
  then show "prefix pre s"
    unfolding hd_Split using takeWhile_is_prefix prefix_order.trans by blast
next
  assume "prefix pre s"
  then obtain t where s: "s = pre @ t" by (auto simp: prefix_def)
  have "takeWhile (\<lambda>x. x \<noteq> c) (pre @ t) = pre @ takeWhile (\<lambda>x. x \<noteq> c) t"
    using assms by (intro takeWhile_append2) auto
  then show "prefix pre (hd (strings_Split s c))"
    unfolding hd_Split s by simp
qed

lemma has_scheme_prefix_hd_Split:
  "has_scheme_prefix (hd (strings_Split s CHR ''/'')) \<longleftrightarrow> has_scheme_prefix s"
  unfolding has_scheme_prefix_def HasPrefix_iff
  by (simp add: prefix_hd_Split_iff)

lemma HasSuffix_TrimSuffix_git:
  "strings_HasSuffix (strings_TrimSuffix s ''.git'') ''.git'' \<longleftrightarrow> strings_HasSuffix s ''.git.git''"
proof (cases "suffix ''.git'' s")
  case True
  then obtain s' where s: "s = s' @ ''.git''" by (auto simp: suffix_def)
  have "suffix (''.git'' @ ''.git'') (s' @ ''.git'') \<longleftrightarrow> suffix ''.git'' s'"
    by (rule same_suffix_suffix)
  then show ?thesis
    unfolding s HasSuffix_iff by simp
next
  case False
  have "suffix ''.git'' ''.git.git''" by (simp add: suffix_def)
  then have "\<not> suffix ''.git.git'' s"
    using False suffix_order.trans by blast
  then show ?thesis
    using False by (simp add: HasSuffix_iff TrimSuffix_no_suffix)
qed

lemma scheme_token_count_https:
  "scheme_token_count (''https://'' @ y) = 1 + scheme_token_count y"
  by (simp add: has_scheme_prefix_def strings_HasPrefix_def)

lemma is_segment_iff:
  "is_segment w s \<longleftrightarrow> CHR ''/'' \<notin> set s \<and> filepath_ToSlash w s = s"
proof (cases "GOOS w = ''windows''")
  case True
  have "CHR ''/'' \<in> set (map (\<lambda>c. if c = CHR 0x5C then CHR ''/'' else c) s) \<longleftrightarrow>
        CHR ''/'' \<in> set s \<or> CHR 0x5C \<in> set s"
    by (induction s) auto
  then show ?thesis
    unfolding is_segment_def ToSlash_fixed using True by (simp add: filepath_ToSlash_def)
next
  case False
  then show ?thesis
    by (simp add: is_segment_def filepath_ToSlash_def)
qed

lemma ToSlash_append:
  "filepath_ToSlash w (a @ b) = filepath_ToSlash w a @ filepath_ToSlash w b"
  by (simp add: filepath_ToSlash_def)

lemma suffix_after_sep:
  fixes suf :: string
  assumes "c \<notin> set suf"
  shows "suffix suf (p @ c # t) \<longleftrightarrow> suffix suf t"
proof -
  have "last (strings_Split (p @ c # t) c) = last (strings_Split t c)"
    by (simp add: Split_append_sep)
  then show ?thesis
    using suffix_last_Split_iff [OF assms, of "p @ c # t"] suffix_last_Split_iff [OF assms, of t]
    by simp
qed

lemma NormalizeRepos_url_form:
  assumes scheme: "scheme \<in> {''http'', ''https'', ''git''}"
    and host: "is_segment w host" and owner: "is_segment w owner" and name: "is_segment w name"
  shows "NormalizeRepos w (scheme @ ''://'' @ host @ ''/'' @ owner @ ''/'' @ name) =
         Inr (strings_TrimSuffix (host @ ''/'' @ owner @ ''/'' @ name) ''.git'')"
proof -
  let ?raw = "scheme @ ''://'' @ host @ ''/'' @ owner @ ''/'' @ name"
  have sl: "filepath_ToSlash w scheme = scheme" "CHR ''/'' \<notin> set (scheme @ '':'')"
    using scheme by (auto simp: filepath_ToSlash_def)
  have lit: "filepath_ToSlash w ''://'' = ''://''" "filepath_ToSlash w ''/'' = ''/''"
    by (simp_all add: filepath_ToSlash_def)
  have r: "filepath_ToSlash w ?raw = ?raw"
    using host owner name sl(1) lit by (simp only: ToSlash_append is_segment_iff)
  have shape: "?raw = (scheme @ '':'') @ CHR ''/'' # ([] @ CHR ''/'' #
                 (host @ CHR ''/'' # (owner @ CHR ''/'' # name)))"
    by simp
  have "strings_Split ?raw CHR ''/'' =
        strings_Split (scheme @ '':'') CHR ''/'' @ strings_Split [] CHR ''/'' @
        strings_Split host CHR ''/'' @ strings_Split owner CHR ''/'' @ strings_Split name CHR ''/''"
    by (subst shape) (simp only: Split_append_sep)
  also have "\<dots> = [scheme @ '':'', [], host, owner, name]"
    using host owner name sl(2) by (simp add: Split_no_sep is_segment_iff)
  finally have paths: "strings_Split ?raw CHR ''/'' = [scheme @ '':'', [], host, owner, name]" .
  have tok: "scheme @ '':'' = ''https:'' \<or> scheme @ '':'' = ''http:'' \<or> scheme @ '':'' = ''git:''"
    using scheme by auto
  show ?thesis
    unfolding NormalizeRepos_def r Let_def paths using tok by simp
qed

text \<open>
  The only inputs on which \<open>NormalizeRepos\<close> panics are the three scheme tokens alone (as
  they read after \<^verbatim>\<open>filepath.ToSlash\<close>).
\<close>

lemma NormalizeRepos_panics_iff:
  "(\<exists>msg. NormalizeRepos w x = Inl (Panic msg)) \<longleftrightarrow>
   filepath_ToSlash w x \<in> {''https:'', ''http:'', ''git:''}"
proof
  let ?r = "filepath_ToSlash w x"
  let ?paths = "strings_Split ?r CHR ''/''"
  assume "\<exists>msg. NormalizeRepos w x = Inl (Panic msg)"
  then obtain msg where p: "NormalizeRepos w x = Inl (Panic msg)" ..
  have ne: "?paths \<noteq> []" by simp
  have "length ?paths \<noteq> 3 \<and> length ?paths \<noteq> 2"
    using p by (auto simp add: NormalizeRepos_def Let_def split: if_splits)
  moreover from this
  have "(?paths ! 0 = ''https:'' \<or> ?paths ! 0 = ''http:'' \<or> ?paths ! 0 = ''git:'')
        \<and> length ?paths < 3"
    using p ne by (simp add: NormalizeRepos_def Let_def split: if_splits)
  ultimately have "length ?paths < 2"
    and tok: "?paths ! 0 = ''https:'' \<or> ?paths ! 0 = ''http:'' \<or> ?paths ! 0 = ''git:''"
    by linarith+
  then have "?paths = [?r]" by (intro Split_length_1)
  then have "?paths ! 0 = ?r" by simp
  with tok show "?r \<in> {''https:'', ''http:'', ''git:''}" by auto
next
  let ?r = "filepath_ToSlash w x"
  let ?paths = "strings_Split ?r CHR ''/''"
  assume t: "?r \<in> {''https:'', ''http:'', ''git:''}"
  then have "CHR ''/'' \<notin> set ?r" by auto
  then have "?paths = [?r]" by (rule Split_no_sep)
  then have "NormalizeRepos w x = Inl (Panic ''slice bounds out of range'')"
    using t by (auto simp add: NormalizeRepos_def Let_def)
  then show "\<exists>msg. NormalizeRepos w x = Inl (Panic msg)" ..
qed

section \<open>The claims about normalisation and the home directory\<close>

text \<open>
  Claim C1. \<open>NormalizeRepos\<close> is meant to end, for every input, with an identifier or
  with the invalid-format error. The code does not: on an input that is a scheme token
  and nothing else, the split has one element, the first element is the token, and the
  slice of the last three elements is out of range, so the call panics.
\<close>

theorem NormalizeRepos_scheme_token_panics:
  "NormalizeRepos w ''https:'' = Inl (Panic ''slice bounds out of range'')
   \<and> NormalizeRepos w ''http:'' = Inl (Panic ''slice bounds out of range'')
   \<and> NormalizeRepos w ''git:'' = Inl (Panic ''slice bounds out of range'')"
  by (simp add: NormalizeRepos_def filepath_ToSlash_def strings_Split.simps Let_def)

text \<open>
  Claim C2, as stated: normalising a successful result again returns it unchanged. It
  fails where the result still ends in \<open>.git\<close>, since one suffix is stripped per call.
\<close>

theorem NormalizeRepos_idempotent_counterexample:
  "NormalizeRepos linux_world ''a/b/c.git.git'' = Inr ''a/b/c.git''
   \<and> NormalizeRepos linux_world ''a/b/c.git'' = Inr ''a/b/c''
   \<and> NormalizeRepos linux_world ''a/b/c.git'' \<noteq> Inr ''a/b/c.git''"
  by code_simp

text \<open>
  Claim C2, amended: normalising a successful result \<open>y\<close> again succeeds and strips one
  more \<open>.git\<close> suffix; it returns \<open>y\<close> itself exactly when \<open>y\<close> does not end in
  \<open>.git\<close>.
\<close>

theorem NormalizeRepos_renormalize:
  assumes "NormalizeRepos w x = Inr y"
  shows "NormalizeRepos w y = Inr (strings_TrimSuffix y ''.git'')
         \<and> (NormalizeRepos w y = Inr y \<longleftrightarrow> \<not> strings_HasSuffix y ''.git'')"
proof -
  have "length (strings_Split y CHR ''/'') = 3"
    using NormalizeRepos_segments [OF assms] by (simp split: if_splits)
  moreover have "filepath_ToSlash w y = y"
    by (rule NormalizeRepos_ToSlash [OF assms])
  ultimately have "NormalizeRepos w y = Inr (strings_TrimSuffix y ''.git'')"
    by (simp add: NormalizeRepos_def Let_def)
  then show ?thesis
    by (simp add: TrimSuffix_fixed)
qed

theorem NormalizeRepos_renormalize_witness:
  "NormalizeRepos linux_world ''a/b.git'' = Inr ''github.com/a/b''
   \<and> NormalizeRepos linux_world ''github.com/a/b'' = Inr ''github.com/a/b''
   \<and> \<not> strings_HasSuffix ''github.com/a/b'' ''.git''"
proof -
  have h: "NormalizeRepos linux_world ''a/b.git'' = Inr ''github.com/a/b''"
    by code_simp
  have n: "\<not> strings_HasSuffix ''github.com/a/b'' ''.git''"
    by (simp add: strings_HasSuffix_def)
  from NormalizeRepos_renormalize [OF h] n
  have "NormalizeRepos linux_world ''github.com/a/b'' = Inr ''github.com/a/b''"
    by blast
  with h n show ?thesis by blast
qed

text \<open>
  Claim C3, as stated: a successful result has the canonical shape, with no trailing
  \<open>.git\<close> and no scheme prefix. A three-segment input that starts with a scheme token is
  returned with it, and a doubled \<open>.git\<close> leaves one behind.
\<close>

theorem NormalizeRepos_shape_counterexample:
  "NormalizeRepos linux_world ''git://x'' = Inr ''git://x''
   \<and> \<not> canonical_shape ''git://x''
   \<and> NormalizeRepos linux_world ''a/b/c.git.git'' = Inr ''a/b/c.git''
   \<and> \<not> canonical_shape ''a/b/c.git''"
  by code_simp

text \<open>
  Claim C3, amended: a successful result has exactly three segments. Its first segment is
  \<open>github.com\<close> for a two-segment input and the third segment from the end of the input
  otherwise, whatever that segment is. It ends in \<open>.git\<close> exactly when the input ends in
  \<open>.git.git\<close>, and it starts with a scheme token exactly when the input does not have
  two segments and its third segment from the end starts with one.
\<close>

theorem NormalizeRepos_shape:
  assumes "NormalizeRepos w x = Inr y"
  shows "length (strings_Split y CHR ''/'') = 3
    \<and> hd (strings_Split y CHR ''/'') =
         (if length (strings_Split (filepath_ToSlash w x) CHR ''/'') = 2 then ''github.com''
          else strings_Split (filepath_ToSlash w x) CHR ''/''
                 ! (length (strings_Split (filepath_ToSlash w x) CHR ''/'') - 3))
    \<and> (strings_HasSuffix y ''.git'' \<longleftrightarrow> strings_HasSuffix (filepath_ToSlash w x) ''.git.git'')
    \<and> (has_scheme_prefix y \<longleftrightarrow>
         length (strings_Split (filepath_ToSlash w x) CHR ''/'') \<noteq> 2
         \<and> has_scheme_prefix
              (strings_Split (filepath_ToSlash w x) CHR ''/''
                 ! (length (strings_Split (filepath_ToSlash w x) CHR ''/'') - 3)))"
proof -
  let ?r = "filepath_ToSlash w x"
  let ?paths = "strings_Split ?r CHR ''/''"
  let ?n = "length ?paths"
  note seg = NormalizeRepos_segments [OF assms]
  have len: "length (strings_Split y CHR ''/'') = 3"
    using seg by (simp split: if_splits)
  have n: "2 \<le> ?n"
    using assms by (cases rule: NormalizeRepos_Inr_cases) simp_all
  have "last (strings_Split y CHR ''/'') = strings_TrimSuffix (?paths ! (?n - 1)) ''.git''"
    using seg by (simp split: if_splits)
  also have "?paths ! (?n - 1) = last ?paths"
    by (simp add: last_conv_nth)
  finally have l: "last (strings_Split y CHR ''/'') = strings_TrimSuffix (last ?paths) ''.git''" .
  have "strings_HasSuffix y ''.git'' \<longleftrightarrow> strings_HasSuffix (last (strings_Split y CHR ''/'')) ''.git''"
    unfolding HasSuffix_iff by (simp add: suffix_last_Split_iff)
  also have "\<dots> \<longleftrightarrow> strings_HasSuffix (last ?paths) ''.git.git''"
    unfolding l by (rule HasSuffix_TrimSuffix_git)
  also have "\<dots> \<longleftrightarrow> strings_HasSuffix ?r ''.git.git''"
    unfolding HasSuffix_iff by (simp add: suffix_last_Split_iff)
  finally have suf: "strings_HasSuffix y ''.git'' \<longleftrightarrow> strings_HasSuffix ?r ''.git.git''" .
  have h: "hd (strings_Split y CHR ''/'') = (if ?n = 2 then ''github.com'' else ?paths ! (?n - 3))"
    using seg by (simp split: if_splits)
  have g: "\<not> has_scheme_prefix ''github.com''"
    by (simp add: has_scheme_prefix_def strings_HasPrefix_def)
  have "has_scheme_prefix y \<longleftrightarrow> has_scheme_prefix (hd (strings_Split y CHR ''/''))"
    by (simp add: has_scheme_prefix_hd_Split)
  also have "\<dots> \<longleftrightarrow> ?n \<noteq> 2 \<and> has_scheme_prefix (?paths ! (?n - 3))"
    unfolding h using g by simp
  finally show ?thesis using len suf h by blast
qed

theorem NormalizeRepos_shape_witness:
  "NormalizeRepos linux_world ''https://github.com/vim-volt/volt.git'' = Inr ''github.com/vim-volt/volt''
   \<and> length (strings_Split ''github.com/vim-volt/volt'' CHR ''/'') = 3
   \<and> \<not> strings_HasSuffix ''github.com/vim-volt/volt'' ''.git''
   \<and> \<not> has_scheme_prefix ''github.com/vim-volt/volt''"
proof -
  have h: "NormalizeRepos linux_world ''https://github.com/vim-volt/volt.git'' = Inr ''github.com/vim-volt/volt''"
    by code_simp
  have a: "\<not> strings_HasSuffix (filepath_ToSlash linux_world ''https://github.com/vim-volt/volt.git'') ''.git.git''"
    by code_simp
  have b: "\<not> has_scheme_prefix
              (strings_Split (filepath_ToSlash linux_world ''https://github.com/vim-volt/volt.git'') CHR ''/''
                 ! (length (strings_Split (filepath_ToSlash linux_world ''https://github.com/vim-volt/volt.git'') CHR ''/'') - 3))"
    by code_simp
  from NormalizeRepos_shape [OF h] a b h show ?thesis by blast
qed

text \<open>
  Claim C5, as stated: the clone URL of a normalised identifier contains exactly one
  scheme token. The three-segment input \<open>git://x\<close> is its own normal form, and its clone
  URL holds two.
\<close>

theorem CloneURL_duplication_counterexample:
  "NormalizeRepos linux_world ''git://x'' = Inr ''git://x''
   \<and> CloneURL linux_world ''git://x'' = ''https://git://x''
   \<and> scheme_token_count (CloneURL linux_world ''git://x'') = 2"
  by code_simp

text \<open>
  Claim C5, amended: the clone URL of a normalised identifier is \<open>https://\<close> followed by
  the identifier. It starts with \<open>https://\<close>, and it holds one scheme token more than the
  identifier does: exactly one if and only if the identifier holds none.
\<close>

theorem CloneURL_of_normalized:
  assumes "NormalizeRepos w x = Inr y"
  shows "CloneURL w y = ''https://'' @ y
    \<and> strings_HasPrefix (CloneURL w y) ''https://''
    \<and> scheme_token_count (CloneURL w y) = 1 + scheme_token_count y
    \<and> (scheme_token_count (CloneURL w y) = 1 \<longleftrightarrow> scheme_token_count y = 0)"
proof -
  have u: "CloneURL w y = ''https://'' @ y"
    by (simp add: CloneURL_def NormalizeRepos_ToSlash [OF assms])
  have a: "strings_HasPrefix (''https://'' @ y) ''https://''"
    unfolding HasPrefix_iff by (rule prefixI) (rule refl)
  have b: "scheme_token_count (''https://'' @ y) = 1 + scheme_token_count y"
    by (rule scheme_token_count_https)
  then have c: "scheme_token_count (''https://'' @ y) = 1 \<longleftrightarrow> scheme_token_count y = 0"
    by linarith
  show ?thesis
    unfolding u using a b c by blast
qed

theorem CloneURL_of_normalized_witness:
  "NormalizeRepos linux_world ''vim-volt/volt'' = Inr ''github.com/vim-volt/volt''
   \<and> CloneURL linux_world ''github.com/vim-volt/volt'' = ''https://github.com/vim-volt/volt''
   \<and> scheme_token_count (CloneURL linux_world ''github.com/vim-volt/volt'') = 1"
proof -
  have h: "NormalizeRepos linux_world ''vim-volt/volt'' = Inr ''github.com/vim-volt/volt''"
    by code_simp
  have z: "scheme_token_count ''github.com/vim-volt/volt'' = 0"
    by code_simp
  note t = CloneURL_of_normalized [OF h]
  from t have "CloneURL linux_world ''github.com/vim-volt/volt'' = ''https://'' @ ''github.com/vim-volt/volt''"
    by blast
  moreover have "''https://'' @ ''github.com/vim-volt/volt'' = ''https://github.com/vim-volt/volt''"
    by simp
  ultimately have u: "CloneURL linux_world ''github.com/vim-volt/volt'' = ''https://github.com/vim-volt/volt''"
    by (rule trans)
  from t z have c: "scheme_token_count (CloneURL linux_world ''github.com/vim-volt/volt'') = 1"
    by blast
  from h u c show ?thesis by blast
qed

text \<open>
  Claim C6. For a scheme among \<open>http\<close>, \<open>https\<close> and \<open>git\<close> and three segments
  \<open>host\<close>, \<open>owner\<close> and \<open>name\<close>, the input \<open>scheme://host/owner/name.git\<close> is
  normalised to \<open>host/owner/name\<close>, and so is \<open>scheme://host/owner/name\<close> when \<open>name\<close>
  itself does not end in \<open>.git\<close> (when it does, the input is of the first form, with a
  shorter name).
\<close>

theorem NormalizeRepos_url:
  assumes "scheme \<in> {''http'', ''https'', ''git''}"
    and "is_segment w host" and "is_segment w owner" and "is_segment w name"
  shows "NormalizeRepos w (scheme @ ''://'' @ host @ ''/'' @ owner @ ''/'' @ name @ ''.git'') =
           Inr (host @ ''/'' @ owner @ ''/'' @ name)
    \<and> (\<not> strings_HasSuffix name ''.git'' \<longrightarrow>
         NormalizeRepos w (scheme @ ''://'' @ host @ ''/'' @ owner @ ''/'' @ name) =
           Inr (host @ ''/'' @ owner @ ''/'' @ name))"
proof -
  have "is_segment w (name @ ''.git'')"
    using assms(4) by (simp add: is_segment_iff ToSlash_append) (simp add: filepath_ToSlash_def)
  from NormalizeRepos_url_form [OF assms(1-3) this]
  have "NormalizeRepos w (scheme @ ''://'' @ host @ ''/'' @ owner @ ''/'' @ name @ ''.git'') =
        Inr (strings_TrimSuffix ((host @ ''/'' @ owner @ ''/'' @ name) @ ''.git'') ''.git'')"
    by simp
  then have a: "NormalizeRepos w (scheme @ ''://'' @ host @ ''/'' @ owner @ ''/'' @ name @ ''.git'') =
        Inr (host @ ''/'' @ owner @ ''/'' @ name)"
    by (simp only: TrimSuffix_append)
  have b: "NormalizeRepos w (scheme @ ''://'' @ host @ ''/'' @ owner @ ''/'' @ name) =
           Inr (host @ ''/'' @ owner @ ''/'' @ name)"
    if n: "\<not> strings_HasSuffix name ''.git''"
  proof -
    have "suffix ''.git'' ((host @ ''/'' @ owner) @ CHR ''/'' # name) \<longleftrightarrow> suffix ''.git'' name"
      by (rule suffix_after_sep) simp
    then have "\<not> suffix ''.git'' (host @ ''/'' @ owner @ ''/'' @ name)"
      using n by (simp add: HasSuffix_iff)
    then have "strings_TrimSuffix (host @ ''/'' @ owner @ ''/'' @ name) ''.git'' =
               host @ ''/'' @ owner @ ''/'' @ name"
      by (rule TrimSuffix_no_suffix)
    with NormalizeRepos_url_form [OF assms] show ?thesis by simp
  qed
  from a b show ?thesis by blast
qed

theorem NormalizeRepos_url_witness:
  "NormalizeRepos linux_world ''https://github.com/vim-volt/volt.git'' = Inr ''github.com/vim-volt/volt''
   \<and> NormalizeRepos linux_world ''git://github.com/vim-volt/volt'' = Inr ''github.com/vim-volt/volt''"
proof -
  have s: "''https'' \<in> {''http'', ''https'', ''git''}" "''git'' \<in> {''http'', ''https'', ''git''}"
    by simp_all
  have h: "is_segment linux_world ''github.com''" and o: "is_segment linux_world ''vim-volt''"
    and n: "is_segment linux_world ''volt''"
    by code_simp+
  have g: "\<not> strings_HasSuffix ''volt'' ''.git''" by code_simp
  from NormalizeRepos_url [OF s(1) h o n]
  have "NormalizeRepos linux_world (''https'' @ ''://'' @ ''github.com'' @ ''/'' @ ''vim-volt'' @ ''/'' @ ''volt'' @ ''.git'') =
           Inr (''github.com'' @ ''/'' @ ''vim-volt'' @ ''/'' @ ''volt'')"
    by blast
  then have a: "NormalizeRepos linux_world ''https://github.com/vim-volt/volt.git'' = Inr ''github.com/vim-volt/volt''"
    by simp
  from NormalizeRepos_url [OF s(2) h o n] g
  have "NormalizeRepos linux_world (''git'' @ ''://'' @ ''github.com'' @ ''/'' @ ''vim-volt'' @ ''/'' @ ''volt'') =
           Inr (''github.com'' @ ''/'' @ ''vim-volt'' @ ''/'' @ ''volt'')"
    by blast
  then have b: "NormalizeRepos linux_world ''git://github.com/vim-volt/volt'' = Inr ''github.com/vim-volt/volt''"
    by simp
  from a b show ?thesis by blast
qed

text \<open>
  Claim C7. \<open>NormalizeLocalRepos\<close> wraps every input without a slash as
  \<open>localhost/local/\<close> followed by the input, with no error, and gives every input with
  a slash to \<open>NormalizeRepos\<close>; \<open>myplugin\<close> and \<open>a/b\<close> are the examples of the
  specification.
\<close>

theorem NormalizeLocalRepos_cases:
  "(CHR ''/'' \<notin> set name \<longrightarrow> NormalizeLocalRepos w name = Inr (''localhost/local/'' @ name))
   \<and> (CHR ''/'' \<in> set name \<longrightarrow> NormalizeLocalRepos w name = NormalizeRepos w name)
   \<and> NormalizeLocalRepos w ''myplugin'' = Inr ''localhost/local/myplugin''
   \<and> NormalizeLocalRepos w ''a/b'' = Inr ''github.com/a/b''"
proof -
  have "NormalizeRepos w ''a/b'' = Inr ''github.com/a/b''"
    by (simp add: NormalizeRepos_def filepath_ToSlash_def strings_Split.simps Let_def
          strings_TrimSuffix_def strings_HasSuffix_def)
  moreover have "strings_Contains ''a/b'' ''/''" "\<not> strings_Contains ''myplugin'' ''/''"
    by (simp_all add: Contains_char)
  ultimately show ?thesis
    by (simp add: NormalizeLocalRepos_def Contains_char)
qed

theorem NormalizeLocalRepos_cases_witness:
  "CHR ''/'' \<notin> set ''plug.vim''
   \<and> NormalizeLocalRepos linux_world ''plug.vim'' = Inr (''localhost/local/'' @ ''plug.vim'')
   \<and> CHR ''/'' \<in> set ''x/y/z''
   \<and> NormalizeLocalRepos linux_world ''x/y/z'' = NormalizeRepos linux_world ''x/y/z''"
proof -
  have a: "CHR ''/'' \<notin> set ''plug.vim''" and b: "CHR ''/'' \<in> set ''x/y/z''"
    by simp_all
  from NormalizeLocalRepos_cases [of "''plug.vim''" linux_world] a
  have c: "NormalizeLocalRepos linux_world ''plug.vim'' = Inr (''localhost/local/'' @ ''plug.vim'')"
    by blast
  from NormalizeLocalRepos_cases [of "''x/y/z''" linux_world] b
  have d: "NormalizeLocalRepos linux_world ''x/y/z'' = NormalizeRepos linux_world ''x/y/z''"
    by blast
  from a b c d show ?thesis by blast
qed

text \<open>
  Claim C8. \<open>HomeDir\<close> returns \<open>HOME\<close> when it is not empty, otherwise \<open>USERPROFILE\<close>
  when that is not empty, and panics when both are empty: a panic, not a returned error.
\<close>

theorem HomeDir_cases:
  "(Getenv w ''HOME'' \<noteq> [] \<longrightarrow> HomeDir w = Inr (Getenv w ''HOME''))
   \<and> (Getenv w ''HOME'' = [] \<and> Getenv w ''USERPROFILE'' \<noteq> [] \<longrightarrow>
        HomeDir w = Inr (Getenv w ''USERPROFILE''))
   \<and> (Getenv w ''HOME'' = [] \<and> Getenv w ''USERPROFILE'' = [] \<longrightarrow>
        HomeDir w = Inl (Panic ''Couldn't look up HOME''))"
  by (simp add: HomeDir_def Let_def)

theorem HomeDir_cases_witness:
  "Getenv linux_world ''HOME'' \<noteq> [] \<and> HomeDir linux_world = Inr ''/home/u''
   \<and> Getenv profile_world ''HOME'' = [] \<and> Getenv profile_world ''USERPROFILE'' \<noteq> []
   \<and> HomeDir profile_world = Inr ''C:/Users/u''
   \<and> Getenv homeless_world ''HOME'' = [] \<and> Getenv homeless_world ''USERPROFILE'' = []
   \<and> HomeDir homeless_world = Inl (Panic ''Couldn't look up HOME'')"
proof -
  have a: "Getenv linux_world ''HOME'' = ''/home/u''"
    and b: "Getenv profile_world ''HOME'' = []" "Getenv profile_world ''USERPROFILE'' = ''C:/Users/u''"
    and c: "Getenv homeless_world ''HOME'' = []" "Getenv homeless_world ''USERPROFILE'' = []"
    by (simp_all add: linux_world_def profile_world_def homeless_world_def)
  have n: "''/home/u'' \<noteq> []" "''C:/Users/u'' \<noteq> []" by simp_all
  from HomeDir_cases [of linux_world] a n
  have a': "HomeDir linux_world = Inr ''/home/u''" by metis
  from HomeDir_cases [of profile_world] b n
  have b': "HomeDir profile_world = Inr ''C:/Users/u''" by metis
  from HomeDir_cases [of homeless_world] c
  have c': "HomeDir homeless_world = Inl (Panic ''Couldn't look up HOME'')" by metis
  from a b c n a' b' c' show ?thesis by metis
qed

text \<open>
  Claim C10. \<open>NormalizeRepos\<close> does not look into the segments: every input whose split
  (after \<^verbatim>\<open>filepath.ToSlash\<close>) has three segments is returned with one \<open>.git\<close>
  stripped, and every input with two segments is returned behind \<open>github.com/\<close>, with no
  error. So \<open>a/\<close> gives \<open>github.com/a/\<close> and \<open>a//b\<close> is returned as it is, both with
  an empty segment.
\<close>

theorem NormalizeRepos_no_validation:
  "(length (strings_Split (filepath_ToSlash w raw) CHR ''/'') = 3 \<longrightarrow>
      NormalizeRepos w raw = Inr (strings_TrimSuffix (filepath_ToSlash w raw) ''.git''))
   \<and> (length (strings_Split (filepath_ToSlash w raw) CHR ''/'') = 2 \<longrightarrow>
      NormalizeRepos w raw = Inr (strings_TrimSuffix (''github.com/'' @ filepath_ToSlash w raw) ''.git''))
   \<and> NormalizeRepos w ''a/'' = Inr ''github.com/a/''
   \<and> NormalizeRepos w ''a//b'' = Inr ''a//b''
   \<and> [] \<in> set (strings_Split ''github.com/a/'' CHR ''/'')
   \<and> [] \<in> set (strings_Split ''a//b'' CHR ''/'')"
proof -
  have "NormalizeRepos w ''a/'' = Inr ''github.com/a/''" "NormalizeRepos w ''a//b'' = Inr ''a//b''"
    by (simp_all add: NormalizeRepos_def filepath_ToSlash_def strings_Split.simps Let_def
          strings_TrimSuffix_def strings_HasSuffix_def)
  moreover have "[] \<in> set (strings_Split ''github.com/a/'' CHR ''/'')"
    "[] \<in> set (strings_Split ''a//b'' CHR ''/'')"
    by (simp_all add: strings_Split.simps)
  ultimately show ?thesis
    by (simp add: NormalizeRepos_def Let_def)
qed

theorem NormalizeRepos_no_validation_witness:
  "length (strings_Split (filepath_ToSlash linux_world ''/x/'') CHR ''/'') = 3
   \<and> NormalizeRepos linux_world ''/x/'' = Inr ''/x/''
   \<and> length (strings_Split (filepath_ToSlash linux_world ''/'') CHR ''/'') = 2
   \<and> NormalizeRepos linux_world ''/'' = Inr ''github.com//''"
proof -
  have a: "length (strings_Split (filepath_ToSlash linux_world ''/x/'') CHR ''/'') = 3"
    and b: "length (strings_Split (filepath_ToSlash linux_world ''/'') CHR ''/'') = 2"
    by code_simp+
  have t: "strings_TrimSuffix (filepath_ToSlash linux_world ''/x/'') ''.git'' = ''/x/''"
    "strings_TrimSuffix (''github.com/'' @ filepath_ToSlash linux_world ''/'') ''.git'' = ''github.com//''"
    by code_simp+
  from NormalizeRepos_no_validation [of linux_world "''/x/''"] a
  have "NormalizeRepos linux_world ''/x/'' = Inr (strings_TrimSuffix (filepath_ToSlash linux_world ''/x/'') ''.git'')"
    by blast
  then have c: "NormalizeRepos linux_world ''/x/'' = Inr ''/x/''"
    by (simp only: t)
  from NormalizeRepos_no_validation [of linux_world "''/''"] b
  have "NormalizeRepos linux_world ''/'' = Inr (strings_TrimSuffix (''github.com/'' @ filepath_ToSlash linux_world ''/'') ''.git'')"
    by blast
  then have d: "NormalizeRepos linux_world ''/'' = Inr ''github.com//''"
    by (simp only: t)
  from a b c d show ?thesis by blast
qed

section \<open>Facts about the codec, the path functions and the lookup loop\<close>

lemma packer_plain:
  "CHR ''_'' \<notin> set s \<Longrightarrow> packer s = map (\<lambda>c. if c = CHR ''/'' then CHR ''_'' else c) s"
  by (induction s) (auto simp: packer_def byteStringReplace_def)

lemma unpacker1_packer: "CHR ''_'' \<notin> set s \<Longrightarrow> unpacker1 (packer s) = s"
  by (induction s) (auto simp: packer_plain unpacker1_def byteReplace_def)

lemma packer_no_slash: "CHR ''/'' \<notin> set (packer s)"
  by (induction s) (auto simp: packer_def byteStringReplace_def)

lemma packer_eq_Nil: "packer s = [] \<longleftrightarrow> s = []"
  by (cases s) (auto simp: packer_def byteStringReplace_def)

lemma packer_eq_dots:
  assumes "CHR ''_'' \<notin> set s"
  shows "packer s = ''.'' \<longleftrightarrow> s = ''.''" and "packer s = ''..'' \<longleftrightarrow> s = ''..''"
proof -
  let ?f = "\<lambda>c. if c = CHR ''/'' then CHR ''_'' else c"
  have one: "?f c = CHR ''.'' \<longleftrightarrow> c = CHR ''.''" for c by simp
  show "packer s = ''.'' \<longleftrightarrow> s = ''.''"
    unfolding packer_plain [OF assms]
    by (cases s; cases "tl s") (auto simp del: if_split simp: one)
  show "packer s = ''..'' \<longleftrightarrow> s = ''..''"
    unfolding packer_plain [OF assms]
    by (cases s; cases "tl s"; cases "tl (tl s)") (auto simp del: if_split simp: one)
qed

lemma singleStringReplace_absent:
  "\<not> strings_Contains s old \<Longrightarrow> singleStringReplace old new s = s"
proof (induction s)
  case Nil
  show ?case by (subst singleStringReplace.simps) simp
next
  case (Cons c cs)
  then have "\<not> strings_HasPrefix (c # cs) old" "singleStringReplace old new cs = cs"
    by simp_all
  then show ?case
    by (subst singleStringReplace.simps) simp
qed

lemma Join_snoc:
  "strings_Join (xs @ [p]) sep = (if xs = [] then p else strings_Join xs sep @ sep @ p)"
  by (induction xs sep rule: strings_Join.induct) simp_all

lemma Split_snoc_plain:
  assumes "q = [] \<or> last q = CHR ''/''" and "CHR ''/'' \<notin> set p"
  shows "\<exists>S. strings_Split (q @ p) CHR ''/'' = S @ [p]"
proof (cases "q = []")
  case True
  then show ?thesis using assms(2) by (simp add: Split_no_sep)
next
  case False
  then obtain q' where q: "q = q' @ [CHR ''/'']"
    using assms(1) by (metis append_butlast_last_id)
  have "strings_Split (q @ p) CHR ''/'' = strings_Split (q' @ CHR ''/'' # p) CHR ''/''"
    unfolding q by simp
  also have "\<dots> = strings_Split q' CHR ''/'' @ [p]"
    using assms(2) by (simp add: Split_append_sep Split_no_sep)
  finally show ?thesis by blast
qed

lemma Clean_snoc:
  assumes "q = [] \<or> last q = CHR ''/''" and "p \<noteq> []" and "CHR ''/'' \<notin> set p"
    and "p \<noteq> ''.''" and "p \<noteq> ''..''"
  shows "\<exists>pre. unix_Clean (q @ p) = pre @ p \<and> (pre = [] \<or> last pre = CHR ''/'')"
proof -
  obtain S where S: "strings_Split (q @ p) CHR ''/'' = S @ [p]"
    using Split_snoc_plain [OF assms(1,3)] by blast
  define rooted where "rooted = (hd (q @ p) = CHR ''/'')"
  define out where "out = foldl (clean_elem rooted) [] S"
  define root where "root = (if rooted then ''/'' else [])"
  have f: "foldl (clean_elem rooted) [] (S @ [p]) = out @ [p]"
    using assms(2,4,5) by (simp add: out_def clean_elem_def)
  define pre where "pre = root @ (if out = [] then [] else strings_Join out ''/'' @ ''/'')"
  have j: "root @ strings_Join (out @ [p]) ''/'' = pre @ p"
    by (simp add: pre_def Join_snoc)
  have "unix_Clean (q @ p) = pre @ p"
    using assms(2) unfolding unix_Clean_def Let_def S rooted_def [symmetric] f
      root_def [symmetric] j by simp
  moreover have "pre = [] \<or> last pre = CHR ''/''"
    by (simp add: pre_def root_def)
  ultimately show ?thesis by blast
qed

lemma Base_snoc:
  assumes "pre = [] \<or> last pre = CHR ''/''" and "p \<noteq> []" and "CHR ''/'' \<notin> set p"
  shows "unix_Base (pre @ p) = p"
proof -
  have "hd (rev p) \<noteq> CHR ''/''"
    using assms(2,3) by (metis hd_rev last_in_set)
  then have d: "dropWhile (\<lambda>c. c = CHR ''/'') (rev p @ rev pre) = rev p @ rev pre"
    using assms(2) by (cases "rev p") auto
  have "rev pre = [] \<or> hd (rev pre) = CHR ''/''"
    using assms(1) by (auto simp: hd_rev)
  then have "takeWhile (\<lambda>c. c \<noteq> CHR ''/'') (rev pre) = []"
    by (cases "rev pre") auto
  moreover have "takeWhile (\<lambda>c. c \<noteq> CHR ''/'') (rev p @ rev pre) =
                 rev p @ takeWhile (\<lambda>c. c \<noteq> CHR ''/'') (rev pre)"
    by (rule takeWhile_append2) (use assms(3) in auto)
  ultimately have t: "takeWhile (\<lambda>c. c \<noteq> CHR ''/'') (rev p @ rev pre) = rev p"
    by simp
  show ?thesis
    using assms(2) by (simp add: unix_Base_def Let_def d t)
qed

lemma Base_Join_plain:
  assumes "p \<noteq> []" and "CHR ''/'' \<notin> set p" and "p \<noteq> ''.''" and "p \<noteq> ''..''"
  shows "unix_Base (unix_Join [dir, p]) = p"
proof -
  have "\<exists>q. unix_Join [dir, p] = unix_Clean (q @ p) \<and> (q = [] \<or> last q = CHR ''/'')"
  proof (cases "dir = []")
    case True
    then have "unix_Join [dir, p] = unix_Clean ([] @ p)"
      using assms(1) by (simp add: unix_Join_def)
    then show ?thesis by blast
  next
    case False
    then have "unix_Join [dir, p] = unix_Clean ((dir @ ''/'') @ p)"
      by (simp add: unix_Join_def)
    moreover have "last (dir @ ''/'') = CHR ''/''" by simp
    ultimately show ?thesis by blast
  qed
  then obtain q where q: "unix_Join [dir, p] = unix_Clean (q @ p)" "q = [] \<or> last q = CHR ''/''"
    by blast
  obtain pre where "unix_Clean (q @ p) = pre @ p" "pre = [] \<or> last pre = CHR ''/''"
    using Clean_snoc [OF q(2) assms] by blast
  then show ?thesis
    unfolding q(1) using Base_snoc [OF _ assms(1,2)] by simp
qed

text \<open>The loop keeps the paths before the index and, of the others, those that exist.\<close>

lemma remove_missing_eq:
  "remove_missing w i paths = take i paths @ filter (Exists w) (drop i paths)"
proof (induction w i paths rule: remove_missing.induct)
  case (1 w i paths)
  show ?case
  proof (cases "i < length paths")
    case False
    then show ?thesis
      by (subst remove_missing.simps) simp
  next
    case True
    then have d: "drop i paths = paths ! i # drop (Suc i) paths"
      by (simp add: Cons_nth_drop_Suc)
    show ?thesis
    proof (cases "Exists w (paths ! i)")
      case ex: True
      have "remove_missing w i paths = remove_missing w (i + 1) paths"
        using True ex by (subst remove_missing.simps) simp
      also have "\<dots> = take (i + 1) paths @ filter (Exists w) (drop (i + 1) paths)"
        using "1.IH"(2) True ex by simp
      also have "\<dots> = take i paths @ filter (Exists w) (drop i paths)"
        using True ex by (simp add: d take_Suc_conv_app_nth)
      finally show ?thesis .
    next
      case nex: False
      let ?cut = "take i paths @ drop (i + 1) paths"
      have "remove_missing w i paths = remove_missing w i ?cut"
        using True nex by (subst remove_missing.simps) simp
      also have "\<dots> = take i ?cut @ filter (Exists w) (drop i ?cut)"
        using "1.IH"(1) True nex by simp
      also have "\<dots> = take i paths @ filter (Exists w) (drop (i + 1) paths)"
        using True by simp
      also have "\<dots> = take i paths @ filter (Exists w) (drop i paths)"
        using nex by (simp add: d)
      finally show ?thesis .
    qed
  qed
qed

section \<open>The claims about the codec and the rc files\<close>

text \<open>
  Claim C4, as stated: decoding the encoded directory name gives back every identifier
  without an underscore. \<open>a//b\<close>, which \<open>NormalizeRepos\<close> returns as it is, has none
  and comes back as \<open>a_b\<close>: its two slashes are encoded as two underscores, which the
  decoder reads as one escaped underscore. The empty identifier, \<open>.\<close> and \<open>..\<close> are
  lost in \<^verbatim>\<open>filepath.Join\<close>, and without a home directory the encoder panics.
\<close>

theorem codec_roundtrip_counterexample:
  "CHR ''_'' \<notin> set ''a//b''
   \<and> NormalizeRepos linux_world ''a//b'' = Inr ''a//b''
   \<and> EncodeReposPath linux_world ''a//b'' = Inr ''/home/u/.vim/pack/volt/opt/a__b''
   \<and> DecodeReposPath linux_world ''/home/u/.vim/pack/volt/opt/a__b'' = ''a_b''
   \<and> EncodeReposPath linux_world [] = Inr ''/home/u/.vim/pack/volt/opt''
   \<and> DecodeReposPath linux_world ''/home/u/.vim/pack/volt/opt'' = ''opt''
   \<and> EncodeReposPath linux_world ''.'' = Inr ''/home/u/.vim/pack/volt/opt''
   \<and> EncodeReposPath linux_world ''..'' = Inr ''/home/u/.vim/pack/volt''
   \<and> DecodeReposPath linux_world ''/home/u/.vim/pack/volt'' = ''volt''
   \<and> EncodeReposPath homeless_world ''a'' = Inl (Panic ''Couldn't look up HOME'')"
  by code_simp

text \<open>
  Claim C4, amended: for every identifier that has no underscore and no two slashes in a
  row, on every platform, if the opt directory is known and the last element
  (\<^verbatim>\<open>filepath.Base\<close>) of the packed name joined under it is the packed name, then
  \<open>EncodeReposPath\<close> returns that joined path and \<open>DecodeReposPath\<close> of it is the
  identifier. Where the separator is a slash and the home directory is known, this is so
  for every identifier that is not empty, \<open>.\<close> or \<open>..\<close>: \<open>EncodeReposPath\<close> returns
  a directory and \<open>DecodeReposPath\<close> of that directory is the identifier.
\<close>

theorem codec_roundtrip:
  assumes "CHR ''_'' \<notin> set ident" and "\<not> strings_Contains ident ''//''"
  shows "(VimVoltOptDir w = Inr opt
          \<and> filepath_Base w (filepath_Join w [opt, packer ident]) = packer ident \<longrightarrow>
            EncodeReposPath w ident = Inr (filepath_Join w [opt, packer ident])
            \<and> DecodeReposPath w (filepath_Join w [opt, packer ident]) = ident)
    \<and> (GOOS w \<noteq> ''windows'' \<and> HomeDir w = Inr home
          \<and> ident \<noteq> [] \<and> ident \<noteq> ''.'' \<and> ident \<noteq> ''..'' \<longrightarrow>
        (\<exists>dir. EncodeReposPath w ident = Inr dir \<and> filepath_Base w dir = packer ident
              \<and> DecodeReposPath w dir = ident))"
proof -
  have codec: "unpacker2 (unpacker1 (packer ident)) = ident"
  proof -
    have "unpacker2 (unpacker1 (packer ident)) = unpacker2 ident"
      using assms(1) by (simp add: unpacker1_packer)
    also have "\<dots> = ident"
      unfolding unpacker2_def using assms(2) by (rule singleStringReplace_absent)
    finally show ?thesis .
  qed
  have general: "EncodeReposPath w ident = Inr (filepath_Join w [d, packer ident])
                 \<and> DecodeReposPath w (filepath_Join w [d, packer ident]) = ident"
    if o: "VimVoltOptDir w = Inr d"
      and b: "filepath_Base w (filepath_Join w [d, packer ident]) = packer ident" for d
  proof -
    have "EncodeReposPath w ident = Inr (filepath_Join w [d, packer ident])"
      by (simp add: EncodeReposPath_def o)
    moreover have "DecodeReposPath w (filepath_Join w [d, packer ident]) = ident"
      using b codec by (simp add: DecodeReposPath_def)
    ultimately show ?thesis ..
  qed
  have slash: "\<exists>dir. EncodeReposPath w ident = Inr dir \<and> filepath_Base w dir = packer ident
                  \<and> DecodeReposPath w dir = ident"
    if u: "GOOS w \<noteq> ''windows''" and h: "HomeDir w = Inr home"
      and n: "ident \<noteq> []" "ident \<noteq> ''.''" "ident \<noteq> ''..''"
  proof -
    define d where "d = unix_Join [unix_Join [home, ''.vim''], ''pack'', ''volt'', ''opt'']"
    have o: "VimVoltOptDir w = Inr d"
      using u h by (simp add: VimVoltOptDir_def VimDir_def filepath_Join_def d_def)
    have "unix_Base (unix_Join [d, packer ident]) = packer ident"
      using assms(1) n
      by (intro Base_Join_plain) (simp_all add: packer_eq_Nil packer_eq_dots packer_no_slash)
    then have b: "filepath_Base w (filepath_Join w [d, packer ident]) = packer ident"
      using u by (simp add: filepath_Base_def filepath_Join_def)
    from general [OF o b] b show ?thesis by blast
  qed
  from general slash show ?thesis by blast
qed

theorem codec_roundtrip_witness:
  "CHR ''_'' \<notin> set ''github.com/vim-volt/volt''
   \<and> \<not> strings_Contains ''github.com/vim-volt/volt'' ''//''
   \<and> VimVoltOptDir linux_world = Inr ''/home/u/.vim/pack/volt/opt''
   \<and> filepath_Base linux_world
        (filepath_Join linux_world [''/home/u/.vim/pack/volt/opt'', packer ''github.com/vim-volt/volt''])
      = packer ''github.com/vim-volt/volt''
   \<and> EncodeReposPath linux_world ''github.com/vim-volt/volt'' =
        Inr ''/home/u/.vim/pack/volt/opt/github.com_vim-volt_volt''
   \<and> DecodeReposPath linux_world ''/home/u/.vim/pack/volt/opt/github.com_vim-volt_volt'' =
        ''github.com/vim-volt/volt''
   \<and> GOOS linux_world \<noteq> ''windows'' \<and> HomeDir linux_world = Inr ''/home/u''
   \<and> (\<exists>dir. EncodeReposPath linux_world ''github.com/vim-volt/volt'' = Inr dir
          \<and> filepath_Base linux_world dir = packer ''github.com/vim-volt/volt''
          \<and> DecodeReposPath linux_world dir = ''github.com/vim-volt/volt'')"
proof -
  have c: "CHR ''_'' \<notin> set ''github.com/vim-volt/volt''"
    and d: "\<not> strings_Contains ''github.com/vim-volt/volt'' ''//''"
    and a: "GOOS linux_world \<noteq> ''windows''" and b: "HomeDir linux_world = Inr ''/home/u''"
    and o: "VimVoltOptDir linux_world = Inr ''/home/u/.vim/pack/volt/opt''"
    and f: "filepath_Base linux_world
              (filepath_Join linux_world
                 [''/home/u/.vim/pack/volt/opt'', packer ''github.com/vim-volt/volt''])
            = packer ''github.com/vim-volt/volt''"
    and j: "filepath_Join linux_world
              [''/home/u/.vim/pack/volt/opt'', packer ''github.com/vim-volt/volt'']
            = ''/home/u/.vim/pack/volt/opt/github.com_vim-volt_volt''"
    by code_simp+
  have n: "''github.com/vim-volt/volt'' \<noteq> []" "''github.com/vim-volt/volt'' \<noteq> ''.''"
    "''github.com/vim-volt/volt'' \<noteq> ''..''"
    by simp_all
  note t = codec_roundtrip [OF c d, of linux_world "''/home/u/.vim/pack/volt/opt''" "''/home/u''"]
  from t o f
  have "EncodeReposPath linux_world ''github.com/vim-volt/volt'' =
          Inr (filepath_Join linux_world
                 [''/home/u/.vim/pack/volt/opt'', packer ''github.com/vim-volt/volt''])
        \<and> DecodeReposPath linux_world
            (filepath_Join linux_world
               [''/home/u/.vim/pack/volt/opt'', packer ''github.com/vim-volt/volt''])
          = ''github.com/vim-volt/volt''"
    by blast
  then have g: "EncodeReposPath linux_world ''github.com/vim-volt/volt'' =
                  Inr ''/home/u/.vim/pack/volt/opt/github.com_vim-volt_volt''
      \<and> DecodeReposPath linux_world ''/home/u/.vim/pack/volt/opt/github.com_vim-volt_volt'' =
          ''github.com/vim-volt/volt''"
    unfolding j .
  from t a b n
  have h: "\<exists>dir. EncodeReposPath linux_world ''github.com/vim-volt/volt'' = Inr dir
             \<and> filepath_Base linux_world dir = packer ''github.com/vim-volt/volt''
             \<and> DecodeReposPath linux_world dir = ''github.com/vim-volt/volt''"
    by blast
  from c d o f g a b h show ?thesis by blast
qed

text \<open>
  What the lookups compute, for every file system and every platform: the two candidates,
  the dot file of the home directory first and the file of the editor directory second,
  without those on which \<^verbatim>\<open>os.Lstat\<close> fails with \<open>ErrNotExist\<close>. A candidate on
  which it fails with any other error is kept.
\<close>

lemma Exists_Lstat: "Exists w path \<longleftrightarrow> Lstat w path \<noteq> Some ErrNotExist"
  by (simp add: Exists_def os_IsNotExist_def)

lemma LookUp_rc_Lstat:
  assumes "HomeDir w = Inr home"
  shows "LookUpVimrc w =
           Inr (filter (\<lambda>path. Lstat w path \<noteq> Some ErrNotExist)
                  [filepath_Join w [home, if GOOS w = ''windows'' then ''_vimrc'' else ''.vimrc''],
                   filepath_Join w
                     [filepath_Join w [home, if GOOS w = ''windows'' then ''vimfiles'' else ''.vim''],
                      ''vimrc'']])"
    and "LookUpGvimrc w =
           Inr (filter (\<lambda>path. Lstat w path \<noteq> Some ErrNotExist)
                  [filepath_Join w [home, if GOOS w = ''windows'' then ''_gvimrc'' else ''.gvimrc''],
                   filepath_Join w
                     [filepath_Join w [home, if GOOS w = ''windows'' then ''vimfiles'' else ''.vim''],
                      ''gvimrc'']])"
proof -
  have v: "VimDir w =
           Inr (filepath_Join w [home, if GOOS w = ''windows'' then ''vimfiles'' else ''.vim''])"
    using assms by (simp add: VimDir_def)
  have x: "Exists w = (\<lambda>path. Lstat w path \<noteq> Some ErrNotExist)"
    by (rule ext) (rule Exists_Lstat)
  show "LookUpVimrc w =
           Inr (filter (\<lambda>path. Lstat w path \<noteq> Some ErrNotExist)
                  [filepath_Join w [home, if GOOS w = ''windows'' then ''_vimrc'' else ''.vimrc''],
                   filepath_Join w
                     [filepath_Join w [home, if GOOS w = ''windows'' then ''vimfiles'' else ''.vim''],
                      ''vimrc'']])"
    unfolding LookUpVimrc_def assms v remove_missing_eq x by simp
  show "LookUpGvimrc w =
           Inr (filter (\<lambda>path. Lstat w path \<noteq> Some ErrNotExist)
                  [filepath_Join w [home, if GOOS w = ''windows'' then ''_gvimrc'' else ''.gvimrc''],
                   filepath_Join w
                     [filepath_Join w [home, if GOOS w = ''windows'' then ''vimfiles'' else ''.vim''],
                      ''gvimrc'']])"
    unfolding LookUpGvimrc_def assms v remove_missing_eq x by simp
qed

text \<open>
  Claim C9. The lookups are meant to return exactly the candidates that exist on disk,
  in the order of the candidates, and the empty list when neither exists; the comment of
  \<open>Exists\<close> says that it is true if the path exists and false otherwise. The code does
  not: \<open>Exists\<close> is false only when \<^verbatim>\<open>os.Lstat\<close> fails with the error that
  \<^verbatim>\<open>os.IsNotExist\<close> recognises. Where \<open>HOME\<close> is a regular file,
  \<^verbatim>\<open>os.Lstat\<close> fails on both candidates with \<^verbatim>\<open>ENOTDIR\<close>: neither is on
  disk, and both lookups return both.
\<close>

theorem LookUp_rc_returns_missing:
  "HomeDir notdir_world = Inr ''/home/u''
   \<and> Lstat notdir_world ''/home/u'' = None
   \<and> Lstat notdir_world ''/home/u/.vimrc'' = Some ErrNotDir
   \<and> Lstat notdir_world ''/home/u/.vim/vimrc'' = Some ErrNotDir
   \<and> LookUpVimrc notdir_world = Inr [''/home/u/.vimrc'', ''/home/u/.vim/vimrc'']
   \<and> Lstat notdir_world ''/home/u/.gvimrc'' = Some ErrNotDir
   \<and> Lstat notdir_world ''/home/u/.vim/gvimrc'' = Some ErrNotDir
   \<and> LookUpGvimrc notdir_world = Inr [''/home/u/.gvimrc'', ''/home/u/.vim/gvimrc'']"
  by code_simp

end
